theory Spec2Isabelle
  imports Main "HOL-Library.Sublist"
begin

section \<open>Strings and character classes\<close>

text \<open>
  A Python \<open>str\<close> is modelled as a \<open>string\<close> whose characters are the code points
  0 to 255. The classifications below are those of the Python runtime on that range:
  \<open>str.isspace\<close> (used by \<open>str.strip\<close>, \<open>str.rstrip\<close> and by \<open>\s\<close> in a pattern),
  the word characters of \<open>\b\<close>, and the simple lower-case mapping of \<open>str.lower\<close> and
  of \<open>re.IGNORECASE\<close>.
\<close>

definition nl :: char where
  "nl = CHR 0x0A"

definition is_space :: "char \<Rightarrow> bool" where
  "is_space c = (c \<in> set [CHR 0x09, CHR 0x0A, CHR 0x0B, CHR 0x0C, CHR 0x0D,
     CHR 0x1C, CHR 0x1D, CHR 0x1E, CHR 0x1F, CHR 0x20, CHR 0x85, CHR 0xA0])"

definition is_word :: "char \<Rightarrow> bool" where
  "is_word c = (let n = of_char c :: nat in
     (48 \<le> n \<and> n \<le> 57) \<or> (65 \<le> n \<and> n \<le> 90) \<or> n = 95 \<or> (97 \<le> n \<and> n \<le> 122) \<or>
     n = 170 \<or> n = 178 \<or> n = 179 \<or> n = 181 \<or> n = 185 \<or> n = 186 \<or>
     n = 188 \<or> n = 189 \<or> n = 190 \<or> (192 \<le> n \<and> n \<noteq> 215 \<and> n \<noteq> 247))"

definition upper_chars :: string where
  "upper_chars = ''ABCDEFGHIJKLMNOPQRSTUVWXYZ'' @
     [CHR 0xC0, CHR 0xC1, CHR 0xC2, CHR 0xC3, CHR 0xC4, CHR 0xC5, CHR 0xC6, CHR 0xC7,
      CHR 0xC8, CHR 0xC9, CHR 0xCA, CHR 0xCB, CHR 0xCC, CHR 0xCD, CHR 0xCE, CHR 0xCF,
      CHR 0xD0, CHR 0xD1, CHR 0xD2, CHR 0xD3, CHR 0xD4, CHR 0xD5, CHR 0xD6,
      CHR 0xD8, CHR 0xD9, CHR 0xDA, CHR 0xDB, CHR 0xDC, CHR 0xDD, CHR 0xDE]"

definition lower_chars :: string where
  "lower_chars = ''abcdefghijklmnopqrstuvwxyz'' @
     [CHR 0xE0, CHR 0xE1, CHR 0xE2, CHR 0xE3, CHR 0xE4, CHR 0xE5, CHR 0xE6, CHR 0xE7,
      CHR 0xE8, CHR 0xE9, CHR 0xEA, CHR 0xEB, CHR 0xEC, CHR 0xED, CHR 0xEE, CHR 0xEF,
      CHR 0xF0, CHR 0xF1, CHR 0xF2, CHR 0xF3, CHR 0xF4, CHR 0xF5, CHR 0xF6,
      CHR 0xF8, CHR 0xF9, CHR 0xFA, CHR 0xFB, CHR 0xFC, CHR 0xFD, CHR 0xFE]"

definition py_lower_char :: "char \<Rightarrow> char" where
  "py_lower_char c = (case map_of (zip upper_chars lower_chars) c of Some l \<Rightarrow> l | None \<Rightarrow> c)"

definition py_lower :: "string \<Rightarrow> string" where
  "py_lower s = map py_lower_char s"

definition lstrip :: "string \<Rightarrow> string" where
  "lstrip s = dropWhile is_space s"

definition rstrip :: "string \<Rightarrow> string" where
  "rstrip s = rev (dropWhile is_space (rev s))"

definition strip :: "string \<Rightarrow> string" where
  "strip s = rstrip (lstrip s)"

section \<open>The pattern language of \<open>re\<close>, as far as the program uses it\<close>

text \<open>
  A character set is one pattern item that consumes one character: a literal, a literal
  under \<open>re.IGNORECASE\<close>, \<open>[^c]\<close>, \<open>\s\<close>, or \<open>.\<close> under \<open>re.DOTALL\<close>.
\<close>

datatype cset = Lit char | LitI char | NotChr char | Space | AnyChar

fun cmatch :: "cset \<Rightarrow> char \<Rightarrow> bool" where
  "cmatch (Lit c) x = (x = c)"
| "cmatch (LitI c) x = (py_lower_char x = py_lower_char c)"
| "cmatch (NotChr c) x = (x \<noteq> c)"
| "cmatch Space x = is_space x"
| "cmatch AnyChar x = True"

text \<open>
  Patterns: sequence, alternation, the greedy \<open>(?:r)?\<close>, the greedy \<open>c*\<close> and \<open>c{0,m}\<close>
  and the lazy \<open>c*?\<close> of a character set, \<open>\b\<close>, \<open>\A\<close>, \<open>\Z\<close> and the lookahead
  \<open>(?=r)\<close>.
\<close>

datatype re = Eps | Chr cset | Seq re re | Alt re re | Opt re
  | Star cset | LazyStar cset | Rep cset nat | WordB | BeginA | EndZ | Ahead re

definition run :: "cset \<Rightarrow> string \<Rightarrow> nat \<Rightarrow> nat" where
  "run c s i = length (takeWhile (cmatch c) (drop i s))"

definition word_at :: "string \<Rightarrow> nat \<Rightarrow> bool" where
  "word_at s i = (i < length s \<and> is_word (s ! i))"

definition boundary :: "string \<Rightarrow> nat \<Rightarrow> bool" where
  "boundary s i = ((0 < i \<and> word_at s (i - 1)) \<noteq> word_at s i)"

text \<open>
  \<open>ends r s i\<close> lists the positions at which a match of \<open>r\<close> that starts at position
  \<open>i\<close> of \<open>s\<close> can end, in the order in which the backtracking matcher tries them:
  the first alternative before the second, the longer repetition before the shorter for
  a greedy item and the shorter before the longer for a lazy one.
\<close>

fun ends :: "re \<Rightarrow> string \<Rightarrow> nat \<Rightarrow> nat list" where
  "ends Eps s i = [i]"
| "ends (Chr c) s i = (if i < length s \<and> cmatch c (s ! i) then [Suc i] else [])"
| "ends (Seq a b) s i = concat (map (ends b s) (ends a s i))"
| "ends (Alt a b) s i = ends a s i @ ends b s i"
| "ends (Opt a) s i = ends a s i @ [i]"
| "ends (Star c) s i = rev (map (\<lambda>k. i + k) [0..<Suc (run c s i)])"
| "ends (LazyStar c) s i = map (\<lambda>k. i + k) [0..<Suc (run c s i)]"
| "ends (Rep c m) s i = rev (map (\<lambda>k. i + k) [0..<Suc (min m (run c s i))])"
| "ends WordB s i = (if boundary s i then [i] else [])"
| "ends BeginA s i = (if i = 0 then [i] else [])"
| "ends EndZ s i = (if i = length s then [i] else [])"
| "ends (Ahead a) s i = (if ends a s i = [] then [] else [i])"

definition seqs :: "re list \<Rightarrow> re" where
  "seqs rs = foldr Seq rs Eps"

definition lit :: "string \<Rightarrow> re" where
  "lit w = seqs (map (\<lambda>c. Chr (Lit c)) w)"

definition liti :: "string \<Rightarrow> re" where
  "liti w = seqs (map (\<lambda>c. Chr (LitI c)) w)"

text \<open>
  One attempt of the matcher at start position \<open>i\<close>: the first end it reaches. After an
  empty match \<open>re.sub\<close> asks the next attempt to advance, and an empty match at the
  same place is then passed over.
\<close>

definition first_end :: "re \<Rightarrow> string \<Rightarrow> nat \<Rightarrow> bool \<Rightarrow> nat option" where
  "first_end r s i adv = find (\<lambda>e. \<not> (adv \<and> e = i)) (ends r s i)"

fun scan :: "re \<Rightarrow> string \<Rightarrow> nat list \<Rightarrow> (nat \<times> nat) option" where
  "scan r s [] = None"
| "scan r s (i # is) =
     (case first_end r s i False of Some e \<Rightarrow> Some (i, e) | None \<Rightarrow> scan r s is)"

text \<open>\<open>re_search\<close>: the leftmost start at or after \<open>pos\<close> with a match, and that match's end.\<close>

definition re_search :: "re \<Rightarrow> string \<Rightarrow> nat \<Rightarrow> bool \<Rightarrow> (nat \<times> nat) option" where
  "re_search r s pos adv =
     (case first_end r s pos adv of
        Some e \<Rightarrow> Some (pos, e)
      | None \<Rightarrow> scan r s [Suc pos..<Suc (length s)])"

text \<open>\<open>Pattern.match\<close>: a match at position 0 only.\<close>

definition re_match :: "re \<Rightarrow> string \<Rightarrow> nat option" where
  "re_match r s = first_end r s 0 False"

subsection \<open>Where a match can end\<close>

lemma run_le: "run c s i \<le> length s - i"
proof -
  have "length (takeWhile (cmatch c) (drop i s)) \<le> length (drop i s)"
    by (rule length_takeWhile_le)
  then show ?thesis by (simp add: run_def)
qed

lemma ends_bounds: "e \<in> set (ends r s i) \<Longrightarrow> i \<le> e \<and> e \<le> max i (length s)"
proof (induction r arbitrary: i e)
  case (Seq a b)
  from Seq.prems obtain m where m: "m \<in> set (ends a s i)" and e: "e \<in> set (ends b s m)"
    by auto
  from Seq.IH(1)[OF m] Seq.IH(2)[OF e] show ?case by auto
next
  case (Alt a b)
  then show ?case by auto
next
  case (Opt a)
  then show ?case by auto
next
  case (Star c)
  then show ?case using run_le[of c s i] by auto
next
  case (LazyStar c)
  then show ?case using run_le[of c s i] by auto
next
  case (Rep c m)
  then show ?case using run_le[of c s i] by auto
next
  case (Ahead a)
  then show ?case by (auto split: if_splits)
qed (auto split: if_splits)

lemma first_end_bounds:
  assumes "first_end r s i adv = Some e"
  shows "i \<le> e" and "e \<le> max i (length s)" and "\<not> (adv \<and> e = i)"
proof -
  from assms have "e \<in> set (ends r s i)" and ok: "\<not> (adv \<and> e = i)"
    by (auto simp: first_end_def find_Some_iff)
  then show "i \<le> e" and "e \<le> max i (length s)" and "\<not> (adv \<and> e = i)"
    using ends_bounds by blast+
qed

lemma scan_bounds:
  "scan r s js = Some (b, e) \<Longrightarrow> b \<in> set js \<and> b \<le> e \<and> e \<le> max b (length s)"
proof (induction js)
  case Nil
  then show ?case by simp
next
  case (Cons j js)
  show ?case
  proof (cases "first_end r s j False")
    case None
    with Cons show ?thesis by simp
  next
    case (Some e')
    with Cons.prems have "b = j" "e = e'" by simp_all
    with Some first_end_bounds(1,2)[of r s j False e'] show ?thesis by simp
  qed
qed

lemma re_search_bounds:
  assumes "re_search r s pos adv = Some (b, e)"
  shows "pos \<le> b" and "b \<le> e" and "e \<le> max b (length s)" and "\<not> (adv \<and> b = pos \<and> e = b)"
    and "b = pos \<or> b \<le> length s"
proof -
  have "pos \<le> b \<and> b \<le> e \<and> e \<le> max b (length s) \<and> \<not> (adv \<and> b = pos \<and> e = b)
      \<and> (b = pos \<or> b \<le> length s)"
  proof (cases "first_end r s pos adv")
    case (Some e')
    with assms have "b = pos" "e = e'" by (simp_all add: re_search_def)
    with Some first_end_bounds[of r s pos adv e'] show ?thesis by simp
  next
    case None
    with assms have "scan r s [Suc pos..<Suc (length s)] = Some (b, e)"
      by (simp add: re_search_def)
    from scan_bounds[OF this] show ?thesis by auto
  qed
  then show "pos \<le> b" and "b \<le> e" and "e \<le> max b (length s)"
    and "\<not> (adv \<and> b = pos \<and> e = b)" and "b = pos \<or> b \<le> length s"
    by simp_all
qed

subsection \<open>\<open>re.sub\<close>\<close>

text \<open>
  \<open>re.sub\<close> replaces every match from left to right: it copies the text between the
  end of the previous match and the start of the next one, puts the replacement, and
  searches again from the end of the match; the text after the last match is copied.
\<close>

function re_sub_from :: "re \<Rightarrow> string \<Rightarrow> string \<Rightarrow> nat \<Rightarrow> bool \<Rightarrow> string" where
  "re_sub_from r repl s pos adv =
     (case re_search r s pos adv of
        None \<Rightarrow> drop pos s
      | Some (b, e) \<Rightarrow> take (b - pos) (drop pos s) @ repl @ re_sub_from r repl s e (e = b))"
  by pat_completeness auto
termination
proof (relation "measure (\<lambda>(r, repl, s, pos, adv). 2 * (Suc (length s) - pos) + (if adv then 0 else 1))",
    goal_cases)
  case 1
  show ?case by simp
next
  case (2 r repl s pos adv x b e)
  then have srch: "re_search r s pos adv = Some (b, e)" by simp
  note B = re_search_bounds[OF srch]
  show ?case
  proof (cases "e = pos")
    case True
    with B have "b = pos" "\<not> adv" by auto
    with True show ?thesis by simp
  next
    case False
    with B have lt: "pos < e" by simp
    have "e \<le> length s"
    proof (rule ccontr)
      assume "\<not> e \<le> length s"
      with B(3) have "e \<le> b" by simp
      with B(2) have "e = b" by simp
      with \<open>\<not> e \<le> length s\<close> B(5) have "b = pos" by simp
      with \<open>e = b\<close> False show False by simp
    qed
    with lt show ?thesis by (auto split: if_splits)
  qed
qed

definition re_sub :: "re \<Rightarrow> string \<Rightarrow> string \<Rightarrow> string" where
  "re_sub r repl s = re_sub_from r repl s 0 False"

section \<open>Front matter of an existing file\<close>

text \<open>
  \<open>FRONTMATTER_RE\<close> is \<^verbatim>\<open>\A---\s*\n.*?\n---\s*\n\<close> under \<open>re.DOTALL\<close>.
\<close>

definition FRONTMATTER_RE :: re where
  "FRONTMATTER_RE = seqs [BeginA, lit ''---'', Star Space, Chr (Lit nl), LazyStar AnyChar,
     Chr (Lit nl), lit ''---'', Star Space, Chr (Lit nl)]"

definition split_frontmatter :: "string \<Rightarrow> string \<times> string" where
  "split_frontmatter md_text =
     (case re_match FRONTMATTER_RE md_text of
        None \<Rightarrow> ([], md_text)
      | Some e \<Rightarrow> (take e md_text, drop e md_text))"

section \<open>The footer block\<close>

definition EU_BLOCK_MARKER :: string where
  "EU_BLOCK_MARKER = ''<!-- EU_FUNDING_FOOTER -->''"

definition EU_FUNDING_BLOCK :: string where
  \<open>EU_FUNDING_BLOCK = strip (
     ''\<newline>'' @
     ''<!-- EU_FUNDING_FOOTER -->\<newline>'' @
     ''<hr style="margin:0.4rem 0;">\<newline>'' @
     ''\<newline>'' @
     ''<div style="\<newline>'' @
     ''  display:flex;\<newline>'' @
     ''  align-items:center;\<newline>'' @
     ''  gap:0.75rem;\<newline>'' @
     ''  font-size:0.6rem;\<newline>'' @
     ''  line-height:1.35;\<newline>'' @
     ''">\<newline>'' @
     ''  <div style="flex:0 0 160px; text-align:center;">\<newline>'' @
     ''    <img src='{{ "/assets/images/eu-funded.jpg" | relative_url }}'\<newline>'' @
     ''         alt="Co-funded by the European Union"\<newline>'' @
     ''         style="max-width:160px; height:auto;">\<newline>'' @
     ''  </div>\<newline>'' @
     ''  <div style="flex:1; text-align:justify; hyphens:auto;">\<newline>'' @
     ''    This project is co-funded by the European Union. However, the views and opinions\<newline>'' @
     ''    expressed are solely those of the author(s) and do not necessarily reflect those\<newline>'' @
     ''    of the European Union or the National Agency DAAD. Neither the European Union nor\<newline>'' @
     ''    the granting authority can be held responsible for them.\<newline>'' @
     ''  </div>\<newline>'' @
     ''</div>\<newline>'') @ [nl]\<close>

text \<open>
  \<open>EU_BLOCK_REMOVE_RE\<close>, compiled with \<open>re.IGNORECASE | re.DOTALL | re.VERBOSE\<close>: three
  alternatives, each opening with the same optional rule lines
  \<^verbatim>\<open>(?:\n{0,2}(?:---\s*\n{0,2})?)?(?:\s*<hr\b[^>]*>\s*)?\s*\<close> and closing with \<^verbatim>\<open>(?=\Z)\<close>.
\<close>

definition hr_before :: re where
  "hr_before = seqs [
     Opt (seqs [Rep (LitI nl) 2, Opt (seqs [liti ''---'', Star Space, Rep (LitI nl) 2])]),
     Opt (seqs [Star Space, liti ''<hr'', WordB, Star (NotChr CHR ''>''), Chr (LitI CHR ''>''),
       Star Space]),
     Star Space]"

definition marker_footer :: re where
  "marker_footer = seqs [hr_before,
     liti ''<!--'', Star Space, liti ''EU_FUNDING_FOOTER'', Star Space, liti ''-->'',
     LazyStar AnyChar, Ahead EndZ]"

definition table_footer :: re where
  "table_footer = seqs [hr_before,
     liti ''<table'', WordB, LazyStar AnyChar, liti ''eu-funded.jpg'', LazyStar AnyChar,
     liti ''</table>'', Star Space, Ahead EndZ]"

definition div_footer :: re where
  "div_footer = seqs [hr_before,
     liti ''<div'', WordB, LazyStar AnyChar, liti ''eu-funded.jpg'', LazyStar AnyChar,
     liti ''</div>'', Star Space, Ahead EndZ]"

definition EU_BLOCK_REMOVE_RE :: re where
  "EU_BLOCK_REMOVE_RE = Alt marker_footer (Alt table_footer div_footer)"

definition ensure_eu_block_at_end :: "string \<Rightarrow> string" where
  "ensure_eu_block_at_end md_body =
     (let body = rstrip md_body;
          body = rstrip (re_sub EU_BLOCK_REMOVE_RE [] body)
      in body @ [nl, nl] @ EU_FUNDING_BLOCK)"

section \<open>Matches of the footer pattern\<close>

lemma seqs_Nil: "seqs [] = Eps" by (simp add: seqs_def)
lemma seqs_Cons: "seqs (r # rs) = Seq r (seqs rs)" by (simp add: seqs_def)

lemma in_ends_Seq: "e \<in> set (ends (Seq a b) s i) \<longleftrightarrow> (\<exists>m\<in>set (ends a s i). e \<in> set (ends b s m))"
  by auto

lemma set_shift_upt: "set (map (\<lambda>k. i + k) [0..<n]) = {i..<i + n}"
proof -
  have "x \<in> (\<lambda>k. i + k) ` {0..<n}" if "i \<le> x" "x < i + n" for x
    using that by (intro image_eqI[of _ _ "x - i"]) auto
  then show ?thesis by auto
qed

lemma in_ends_Star: "e \<in> set (ends (Star c) s i) \<longleftrightarrow> i \<le> e \<and> e \<le> i + run c s i"
  by (simp only: ends.simps set_rev set_shift_upt) auto

lemma in_ends_LazyStar: "e \<in> set (ends (LazyStar c) s i) \<longleftrightarrow> i \<le> e \<and> e \<le> i + run c s i"
  by (simp only: ends.simps set_shift_upt) auto

definition ci_at :: "string \<Rightarrow> string \<Rightarrow> nat \<Rightarrow> bool" where
  "ci_at w s i = (i + length w \<le> length s \<and> py_lower (take (length w) (drop i s)) = py_lower w)"

lemma liti_Nil: "liti [] = Eps" by (simp add: liti_def seqs_def)
lemma liti_Cons: "liti (c # w) = Seq (Chr (LitI c)) (liti w)" by (simp add: liti_def seqs_def)

lemma ci_at_Nil: "ci_at [] s i \<longleftrightarrow> i \<le> length s" by (simp add: ci_at_def py_lower_def)

lemma ci_at_Cons:
  "ci_at (c # w) s i \<longleftrightarrow> i < length s \<and> py_lower_char (s ! i) = py_lower_char c \<and> ci_at w s (Suc i)"
proof (cases "i < length s")
  case True
  then have "drop i s = s ! i # drop (Suc i) s" by (simp add: Cons_nth_drop_Suc)
  with True show ?thesis by (auto simp: ci_at_def py_lower_def)
next
  case False
  then show ?thesis by (simp add: ci_at_def)
qed

lemma ends_liti: "i \<le> length s \<Longrightarrow> ends (liti w) s i = (if ci_at w s i then [i + length w] else [])"
proof (induction w arbitrary: i)
  case Nil
  then show ?case by (simp add: liti_Nil ci_at_Nil)
next
  case (Cons c w)
  show ?case
  proof (cases "i < length s \<and> py_lower_char (s ! i) = py_lower_char c")
    case True
    then have "Suc i \<le> length s" by simp
    from Cons.IH[OF this] True show ?thesis by (simp add: liti_Cons ci_at_Cons)
  next
    case False
    then show ?thesis by (auto simp add: liti_Cons ci_at_Cons)
  qed
qed

lemma ends_seqs_at_end:
  "e \<in> set (ends (seqs (rs @ [Ahead EndZ])) s i) \<Longrightarrow> e = length s"
proof (induction rs arbitrary: i)
  case Nil
  then show ?case by (auto simp: seqs_Cons seqs_Nil split: if_splits)
next
  case (Cons r rs)
  then show ?case by (auto simp: seqs_Cons)
qed

lemma ends_seqs_liti_advance:
  assumes "e \<in> set (ends (seqs (a # liti w # rs)) s i)" and "w \<noteq> []" and "i \<le> length s"
  shows "i < e"
proof -
  from assms(1) obtain m1 m2 where m1: "m1 \<in> set (ends a s i)"
    and m2: "m2 \<in> set (ends (liti w) s m1)" and e: "e \<in> set (ends (seqs rs) s m2)"
    by (auto simp: seqs_Cons)
  from ends_bounds[OF m1] assms(3) have "i \<le> m1" "m1 \<le> length s" by auto
  with m2 have "m2 = m1 + length w" by (auto simp: ends_liti split: if_splits)
  with ends_bounds[OF e] \<open>i \<le> m1\<close> assms(2) show ?thesis by (cases w) auto
qed

lemma EU_ends:
  assumes "e \<in> set (ends EU_BLOCK_REMOVE_RE s i)" and "i \<le> length s"
  shows "e = length s" and "i < e"
proof -
  have A: "marker_footer = seqs ([hr_before,
     liti ''<!--'', Star Space, liti ''EU_FUNDING_FOOTER'', Star Space, liti ''-->'',
     LazyStar AnyChar] @ [Ahead EndZ])" by (simp add: marker_footer_def)
  have B: "table_footer = seqs ([hr_before,
     liti ''<table'', WordB, LazyStar AnyChar, liti ''eu-funded.jpg'', LazyStar AnyChar,
     liti ''</table>'', Star Space] @ [Ahead EndZ])" by (simp add: table_footer_def)
  have C: "div_footer = seqs ([hr_before,
     liti ''<div'', WordB, LazyStar AnyChar, liti ''eu-funded.jpg'', LazyStar AnyChar,
     liti ''</div>'', Star Space] @ [Ahead EndZ])" by (simp add: div_footer_def)
  from assms(1) consider "e \<in> set (ends marker_footer s i)" | "e \<in> set (ends table_footer s i)"
    | "e \<in> set (ends div_footer s i)" by (auto simp: EU_BLOCK_REMOVE_RE_def)
  then have "e = length s \<and> i < e"
  proof cases
    case 1
    have "e = length s" using 1 unfolding A by (rule ends_seqs_at_end)
    moreover have "i < e" using 1 assms(2) ends_seqs_liti_advance[of e hr_before "''<!--''" _ s i]
      by (simp add: marker_footer_def)
    ultimately show ?thesis by simp
  next
    case 2
    have "e = length s" using 2 unfolding B by (rule ends_seqs_at_end)
    moreover have "i < e" using 2 assms(2) ends_seqs_liti_advance[of e hr_before "''<table''" _ s i]
      by (simp add: table_footer_def)
    ultimately show ?thesis by simp
  next
    case 3
    have "e = length s" using 3 unfolding C by (rule ends_seqs_at_end)
    moreover have "i < e" using 3 assms(2) ends_seqs_liti_advance[of e hr_before "''<div''" _ s i]
      by (simp add: div_footer_def)
    ultimately show ?thesis by simp
  qed
  then show "e = length s" and "i < e" by simp_all
qed

subsection \<open>The leftmost match, and what \<open>re.sub\<close> leaves\<close>

lemma first_end_False: "first_end r s i False = (case ends r s i of [] \<Rightarrow> None | e # _ \<Rightarrow> Some e)"
  by (cases "ends r s i") (simp_all add: first_end_def)

lemma scan_None: "scan r s js = None \<longleftrightarrow> (\<forall>j\<in>set js. ends r s j = [])"
  by (induction js) (auto simp: first_end_False split: list.splits)

lemma scan_Some:
  "scan r s js = Some (b, e) \<Longrightarrow>
     \<exists>pre post. js = pre @ b # post \<and> (\<forall>j\<in>set pre. ends r s j = []) \<and> e \<in> set (ends r s b)"
proof (induction js)
  case Nil
  then show ?case by simp
next
  case (Cons j js)
  show ?case
  proof (cases "ends r s j")
    case Nil
    with Cons.prems have "scan r s js = Some (b, e)" by (simp add: first_end_False)
    from Cons.IH[OF this] obtain pre post where
      "js = pre @ b # post" "\<forall>j\<in>set pre. ends r s j = []" "e \<in> set (ends r s b)" by blast
    with Nil have "j # js = (j # pre) @ b # post \<and> (\<forall>j\<in>set (j # pre). ends r s j = []) \<and> e \<in> set (ends r s b)"
      by simp
    then show ?thesis by blast
  next
    case (Cons e' es)
    with Cons.prems have "b = j" "e = e'" by (simp_all add: first_end_False)
    with Cons have "j # js = [] @ b # js \<and> (\<forall>j\<in>set []. ends r s j = []) \<and> e \<in> set (ends r s b)"
      by simp
    then show ?thesis by blast
  qed
qed

lemma re_search_0_None: "re_search r s 0 False = None \<longleftrightarrow> (\<forall>j\<le>length s. ends r s j = [])"
proof -
  have "(\<forall>j\<le>length s. ends r s j = []) \<longleftrightarrow> ends r s 0 = [] \<and> (\<forall>j\<in>set [Suc 0..<Suc (length s)]. ends r s j = [])"
  proof
    assume "\<forall>j\<le>length s. ends r s j = []"
    then show "ends r s 0 = [] \<and> (\<forall>j\<in>set [Suc 0..<Suc (length s)]. ends r s j = [])" by auto
  next
    assume a: "ends r s 0 = [] \<and> (\<forall>j\<in>set [Suc 0..<Suc (length s)]. ends r s j = [])"
    show "\<forall>j\<le>length s. ends r s j = []"
    proof (intro allI impI)
      fix j assume "j \<le> length s"
      with a show "ends r s j = []" by (cases j) auto
    qed
  qed
  then show ?thesis
    by (auto simp: re_search_def first_end_False scan_None split: list.splits)
qed

lemma re_search_0_Some:
  assumes "re_search r s 0 False = Some (b, e)"
  shows "b \<le> length s" and "e \<in> set (ends r s b)" and "\<forall>j<b. ends r s j = []"
proof -
  have "b \<le> length s \<and> e \<in> set (ends r s b) \<and> (\<forall>j<b. ends r s j = [])"
  proof (cases "ends r s 0")
    case (Cons e' es)
    with assms show ?thesis by (simp add: re_search_def first_end_False)
  next
    case Nil
    define js where "js = [Suc 0..<Suc (length s)]"
    have setjs: "set js = {Suc 0..length s}" unfolding js_def by auto
    have sortedjs: "sorted js" unfolding js_def by (rule sorted_upt)
    from Nil assms have sc: "scan r s js = Some (b, e)"
      by (simp add: re_search_def first_end_False js_def)
    from scan_Some[OF sc] obtain pre post where
      js: "js = pre @ b # post" and pre: "\<forall>j\<in>set pre. ends r s j = []"
      and e: "e \<in> set (ends r s b)" by blast
    from js have "b \<in> set js" by simp
    with setjs have b: "b \<le> length s" by simp
    have "ends r s j = []" if "j < b" for j
    proof (cases j)
      case 0
      with Nil show ?thesis by simp
    next
      case (Suc k)
      have "j \<in> set js" using Suc that b setjs by simp
      then have "j \<in> set pre \<or> j = b \<or> j \<in> set post" using js by auto
      moreover have "j \<notin> set post" using sortedjs that by (auto simp: js sorted_append)
      ultimately have "j \<in> set pre" using that by simp
      with pre show ?thesis by simp
    qed
    with b e show ?thesis by simp
  qed
  then show "b \<le> length s" and "e \<in> set (ends r s b)" and "\<forall>j<b. ends r s j = []" by simp_all
qed

lemma re_sub_EU_None:
  assumes "re_search EU_BLOCK_REMOVE_RE s 0 False = None"
  shows "re_sub EU_BLOCK_REMOVE_RE [] s = s"
  using assms by (simp add: re_sub_def)

lemma re_sub_EU_Some:
  assumes "re_search EU_BLOCK_REMOVE_RE s 0 False = Some (b, e)"
  shows "re_sub EU_BLOCK_REMOVE_RE [] s = take b s"
proof -
  note S = re_search_0_Some[OF assms]
  from EU_ends[OF S(2) S(1)] have e: "e = length s" and lt: "b < e" by simp_all
  have none_end: "ends EU_BLOCK_REMOVE_RE s (length s) = []"
  proof (rule ccontr)
    assume "ends EU_BLOCK_REMOVE_RE s (length s) \<noteq> []"
    then obtain e' where "e' \<in> set (ends EU_BLOCK_REMOVE_RE s (length s))"
      by (cases "ends EU_BLOCK_REMOVE_RE s (length s)") auto
    from EU_ends[OF this] show False by simp
  qed
  have "re_search EU_BLOCK_REMOVE_RE s e (e = b) = None"
    using none_end e lt by (simp add: re_search_def first_end_def)
  then have "re_sub_from EU_BLOCK_REMOVE_RE [] s e (e = b) = drop e s" by simp
  with assms e show ?thesis by (simp add: re_sub_def)
qed

subsection \<open>A marker starts a match\<close>

text \<open>\<open>occurrences w s\<close> counts the positions of \<open>s\<close> at which \<open>w\<close> occurs.\<close>

fun occurrences :: "string \<Rightarrow> string \<Rightarrow> nat" where
  "occurrences w [] = (if w = [] then 1 else 0)"
| "occurrences w (x # xs) = (if prefix w (x # xs) then 1 else 0) + occurrences w xs"

lemma in_seqs_ConsI:
  "m \<in> set (ends r s i) \<Longrightarrow> e \<in> set (ends (seqs rs) s m) \<Longrightarrow> e \<in> set (ends (seqs (r # rs)) s i)"
  by (auto simp: seqs_Cons)

lemma in_ends_OptI: "i \<in> set (ends (Opt a) s i)"
  by simp

lemma hr_before_empty: "i \<in> set (ends hr_before s i)"
  unfolding hr_before_def
  by (intro in_seqs_ConsI[of i] in_ends_OptI) (auto simp: in_ends_Star seqs_Nil)

lemma ci_at_drop:
  assumes "drop i s = w @ v" and "w \<noteq> []"
  shows "ci_at w s i"
proof -
  have "length (drop i s) = length w + length v" using assms(1) by simp
  with assms(2) have "i + length w \<le> length s" by (cases w) auto
  with assms(1) show ?thesis by (simp add: ci_at_def)
qed

lemma in_liti_drop:
  assumes "drop i s = w @ v" and "w \<noteq> []" and "length w = n"
  shows "i + n \<in> set (ends (liti w) s i)"
proof -
  have "length (drop i s) = length w + length v" using assms(1) by simp
  then have "i \<le> length s" using assms(2) by (cases w) auto
  with ci_at_drop[OF assms(1,2)] assms(3) show ?thesis by (simp add: ends_liti)
qed

lemma run_one_space:
  assumes "drop i s = x # y # v" and "is_space x" and "\<not> is_space y" and "j = i + 1"
  shows "j \<in> set (ends (Star Space) s i)"
proof -
  have "run Space s i = 1" using assms(1-3) by (simp add: run_def)
  with assms(4) show ?thesis by (simp add: in_ends_Star)
qed

lemma run_AnyChar: "run AnyChar s i = length s - i"
proof -
  have tw: "takeWhile (cmatch AnyChar) xs = xs" for xs
    by (simp add: takeWhile_eq_all_conv)
  show ?thesis by (simp add: run_def tw)
qed

lemma to_end: "i \<le> length s \<Longrightarrow> length s \<in> set (ends (seqs [LazyStar AnyChar, Ahead EndZ]) s i)"
  by (intro in_seqs_ConsI[of "length s"]) (simp_all add: in_ends_LazyStar run_AnyChar seqs_Nil)

lemma drop_at: "drop k s = t \<Longrightarrow> drop (k + n) s = drop n t"
  by (auto simp: add.commute)

lemma marker_match:
  assumes k: "k \<in> set (ends hr_before s i)" and pre: "prefix EU_BLOCK_MARKER (drop k s)"
  shows "length s \<in> set (ends marker_footer s i)"
proof -
  from pre obtain v where d0: "drop k s = ''<!--'' @ '' EU_FUNDING_FOOTER -->'' @ v"
    by (auto simp: prefix_def EU_BLOCK_MARKER_def)
  from drop_at[OF d0, of 4]
  have d4: "drop (k + 4) s = CHR '' '' # CHR ''E'' # ''U_FUNDING_FOOTER -->'' @ v"
    by simp
  from drop_at[OF d0, of 5]
  have d5: "drop (k + 5) s = ''EU_FUNDING_FOOTER'' @ '' -->'' @ v" by simp
  from drop_at[OF d0, of 22]
  have d22: "drop (k + 22) s = CHR '' '' # CHR ''-'' # ''->'' @ v" by simp
  from drop_at[OF d0, of 23]
  have d23: "drop (k + 23) s = ''-->'' @ v" by simp
  have len: "k + 26 \<le> length s"
  proof -
    have "length (drop k s) = 26 + length v" by (simp add: d0)
    then show ?thesis by simp
  qed
  have s1: "k + 4 \<in> set (ends (liti ''<!--'') s k)" using in_liti_drop[OF d0, of 4] by simp
  have s2: "k + 5 \<in> set (ends (Star Space) s (k + 4))"
    using run_one_space[OF d4, of "k + 5"] by (simp add: is_space_def)
  have s3: "k + 22 \<in> set (ends (liti ''EU_FUNDING_FOOTER'') s (k + 5))"
    using in_liti_drop[OF d5, of 17] by (simp add: add.assoc)
  have s4: "k + 23 \<in> set (ends (Star Space) s (k + 22))"
    using run_one_space[OF d22, of "k + 23"] by (simp add: is_space_def)
  have s5: "k + 26 \<in> set (ends (liti ''-->'') s (k + 23))"
    using in_liti_drop[OF d23, of 3] by (simp add: add.assoc)
  show ?thesis
    unfolding marker_footer_def
    by (intro in_seqs_ConsI[OF k] in_seqs_ConsI[OF s1] in_seqs_ConsI[OF s2] in_seqs_ConsI[OF s3]
        in_seqs_ConsI[OF s4] in_seqs_ConsI[OF s5] to_end len)
qed

lemma marker_at_matches:
  assumes "prefix EU_BLOCK_MARKER (drop m s)"
  shows "ends EU_BLOCK_REMOVE_RE s m \<noteq> []"
proof -
  from marker_match[OF hr_before_empty assms]
  have "length s \<in> set (ends EU_BLOCK_REMOVE_RE s m)" by (simp add: EU_BLOCK_REMOVE_RE_def)
  then show ?thesis by auto
qed


lemma occurrences_skip:
  "n \<le> length xs \<Longrightarrow> (\<forall>j<n. \<not> prefix w (drop j xs)) \<Longrightarrow>
     occurrences w xs = occurrences w (drop n xs)"
proof (induction n arbitrary: xs)
  case 0
  then show ?case by simp
next
  case (Suc n)
  then obtain x xs' where xs: "xs = x # xs'" by (cases xs) auto
  from Suc.prems(2) have "\<not> prefix w (drop 0 xs)" by blast
  then have h: "\<not> prefix w (x # xs')" by (simp add: xs)
  have "\<forall>j<n. \<not> prefix w (drop j xs')"
  proof (intro allI impI)
    fix j assume "j < n"
    then have "\<not> prefix w (drop (Suc j) xs)" using Suc.prems(2) by simp
    then show "\<not> prefix w (drop j xs')" by (simp add: xs)
  qed
  moreover have "n \<le> length xs'" using Suc.prems(1) xs by simp
  ultimately have "occurrences w xs' = occurrences w (drop n xs')" by (rule Suc.IH[rotated])
  with h show ?case by (simp add: xs)
qed

lemma occurrences_mono: "occurrences (w @ t) xs \<le> occurrences w xs"
proof (induction xs)
  case Nil
  then show ?case by simp
next
  case (Cons x xs)
  have "prefix (w @ t) (x # xs) \<Longrightarrow> prefix w (x # xs)" by (rule append_prefixD)
  with Cons show ?case by auto
qed

lemma occurrences_suffix: "w \<noteq> [] \<Longrightarrow> 1 \<le> occurrences w (a @ w)"
proof (induction a)
  case Nil
  then show ?case by (cases w) auto
next
  case (Cons x a)
  then show ?case by simp
qed

lemma rstrip_split: "rstrip s @ rev (takeWhile is_space (rev s)) = s"
  unfolding rstrip_def rev_append[symmetric] takeWhile_dropWhile_id by simp

lemma rstrip_prefix: "prefix (rstrip s) s"
  using rstrip_split[of s] by (metis prefixI)

lemma rstrip_idem: "rstrip (rstrip s) = rstrip s"
  by (simp add: rstrip_def)

lemma blk_marker_once: "occurrences EU_BLOCK_MARKER EU_FUNDING_BLOCK = 1"
  by code_simp

lemma blk_marker_prefix: "prefix EU_BLOCK_MARKER EU_FUNDING_BLOCK"
  by code_simp

lemma nl_not_in_marker: "nl \<notin> set EU_BLOCK_MARKER"
  by (simp add: EU_BLOCK_MARKER_def nl_def)

lemma marker_length: "length EU_BLOCK_MARKER = 26"
  by (simp add: EU_BLOCK_MARKER_def)

text \<open>What \<open>re.sub\<close> keeps holds no marker: a marker is where a match starts.\<close>

lemma kept_no_marker:
  assumes "prefix EU_BLOCK_MARKER (drop j (re_sub EU_BLOCK_REMOVE_RE [] s))"
  shows False
proof -
  let ?t = "re_sub EU_BLOCK_REMOVE_RE [] s"
  from assms obtain v where v: "drop j ?t = EU_BLOCK_MARKER @ v" by (auto simp: prefix_def)
  then have "length (drop j ?t) = 26 + length v" by (simp add: marker_length)
  then have jt: "j + 26 \<le> length ?t" by simp
  show False
  proof (cases "re_search EU_BLOCK_REMOVE_RE s 0 False")
    case None
    then have "?t = s" by (rule re_sub_EU_None)
    with assms have "ends EU_BLOCK_REMOVE_RE s j \<noteq> []" by (simp add: marker_at_matches)
    moreover from jt \<open>?t = s\<close> have "j \<le> length s" by simp
    ultimately show False using None by (simp add: re_search_0_None)
  next
    case (Some be)
    obtain k e where be: "be = (k, e)" by (cases be)
    with Some have t: "?t = take k s" by (simp add: re_sub_EU_Some)
    note S = re_search_0_Some[OF Some[unfolded be]]
    from jt t have jk: "j + 26 \<le> k" by simp
    have "drop j s = drop j (take k s) @ drop k s"
      using jk by (metis append_take_drop_id drop_append add_leD1 length_take min.absorb2 S(1) diff_is_0_eq drop0)
    with v t have "prefix EU_BLOCK_MARKER (drop j s)" by (simp add: prefix_def)
    then have "ends EU_BLOCK_REMOVE_RE s j \<noteq> []" by (rule marker_at_matches)
    with S(3) jk show False by simp
  qed
qed

section \<open>The normalised body ends with the footer block, once\<close>

lemma ensure_shape:
  "ensure_eu_block_at_end b =
     rstrip (re_sub EU_BLOCK_REMOVE_RE [] (rstrip b)) @ [nl, nl] @ EU_FUNDING_BLOCK"
  by (simp add: ensure_eu_block_at_end_def Let_def)

lemma re_sub_EU_prefix: "prefix (re_sub EU_BLOCK_REMOVE_RE [] s) s"
proof (cases "re_search EU_BLOCK_REMOVE_RE s 0 False")
  case None
  then show ?thesis by (simp add: re_sub_EU_None)
next
  case (Some be)
  then show ?thesis by (cases be) (simp add: re_sub_EU_Some take_is_prefix)
qed

text \<open>
  What \<open>re.sub\<close> keeps is the text before the leftmost place where the footer pattern
  matches, and that match reaches the end of the text.
\<close>

lemma re_sub_EU_cut:
  "\<exists>k\<le>length s. re_sub EU_BLOCK_REMOVE_RE [] s = take k s
      \<and> (\<forall>j<k. ends EU_BLOCK_REMOVE_RE s j = [])
      \<and> (k < length s \<longrightarrow> length s \<in> set (ends EU_BLOCK_REMOVE_RE s k))"
proof (cases "re_search EU_BLOCK_REMOVE_RE s 0 False")
  case None
  then have "re_sub EU_BLOCK_REMOVE_RE [] s = take (length s) s" by (simp add: re_sub_EU_None)
  moreover from None have "\<forall>j<length s. ends EU_BLOCK_REMOVE_RE s j = []"
    by (simp add: re_search_0_None)
  ultimately show ?thesis by blast
next
  case (Some be)
  obtain k e where be: "be = (k, e)" by (cases be)
  note S = re_search_0_Some[OF Some[unfolded be]]
  from EU_ends[OF S(2) S(1)] S(2) have "length s \<in> set (ends EU_BLOCK_REMOVE_RE s k)" by simp
  moreover from Some be have "re_sub EU_BLOCK_REMOVE_RE [] s = take k s" by (simp add: re_sub_EU_Some)
  ultimately show ?thesis using S(1,3) by blast
qed

lemma py_lower_char_lt: "py_lower_char x = CHR ''<'' \<Longrightarrow> x = CHR ''<''"
  by (auto simp: py_lower_char_def upper_chars_def lower_chars_def split: if_splits)

lemma ci_at_lt: "ci_at (CHR ''<'' # w) s i \<Longrightarrow> CHR ''<'' \<in> set s"
proof -
  assume "ci_at (CHR ''<'' # w) s i"
  then have "i < length s" and "py_lower_char (s ! i) = py_lower_char CHR ''<''"
    by (simp_all add: ci_at_Cons)
  moreover have "py_lower_char CHR ''<'' = CHR ''<''"
    by (simp add: py_lower_char_def upper_chars_def lower_chars_def)
  ultimately have "s ! i = CHR ''<''" and "i < length s" using py_lower_char_lt by simp_all
  then show ?thesis by (metis nth_mem)
qed

lemma seqs_liti_lt:
  assumes "e \<in> set (ends (seqs (a # liti (CHR ''<'' # w) # rs)) s i)" and "i \<le> length s"
  shows "CHR ''<'' \<in> set s"
proof -
  from assms(1) obtain m1 m2 where m1: "m1 \<in> set (ends a s i)"
    and m2: "m2 \<in> set (ends (liti (CHR ''<'' # w)) s m1)"
    by (auto simp: seqs_Cons)
  from ends_bounds[OF m1] assms(2) have "m1 \<le> length s" by auto
  with m2 have "ci_at (CHR ''<'' # w) s m1" by (auto simp: ends_liti split: if_splits)
  then show ?thesis by (rule ci_at_lt)
qed

lemma EU_match_needs_lt:
  assumes "ends EU_BLOCK_REMOVE_RE s i \<noteq> []" and "i \<le> length s"
  shows "CHR ''<'' \<in> set s"
proof -
  from assms(1) obtain e where "e \<in> set (ends EU_BLOCK_REMOVE_RE s i)"
    by (cases "ends EU_BLOCK_REMOVE_RE s i") auto
  then consider "e \<in> set (ends marker_footer s i)" | "e \<in> set (ends table_footer s i)"
    | "e \<in> set (ends div_footer s i)" by (auto simp: EU_BLOCK_REMOVE_RE_def)
  then show ?thesis
  proof cases
    case 1
    then show ?thesis using assms(2) seqs_liti_lt[of e hr_before "''!--''" _ s i]
      by (simp add: marker_footer_def)
  next
    case 2
    then show ?thesis using assms(2) seqs_liti_lt[of e hr_before "''table''" _ s i]
      by (simp add: table_footer_def)
  next
    case 3
    then show ?thesis using assms(2) seqs_liti_lt[of e hr_before "''div''" _ s i]
      by (simp add: div_footer_def)
  qed
qed

lemma set_rstrip: "set (rstrip s) \<subseteq> set s"
  using rstrip_split[of s] by (metis Un_upper1 set_append)

lemma no_marker_before_block:
  assumes nomark: "\<And>j. \<not> prefix EU_BLOCK_MARKER (drop j p)"
    and j: "j < length p + 2"
  shows "\<not> prefix EU_BLOCK_MARKER (drop j (p @ [nl, nl] @ EU_FUNDING_BLOCK))"
proof
  define out where "out = p @ [nl, nl] @ EU_FUNDING_BLOCK"
  have len: "length out = length p + 2 + length EU_FUNDING_BLOCK" by (simp add: out_def)
  have at_p: "out ! length p = nl" by (simp add: out_def nth_append)
  have at_p1: "out ! (length p + 1) = nl" by (simp add: out_def nth_append)
  assume "prefix EU_BLOCK_MARKER (drop j (p @ [nl, nl] @ EU_FUNDING_BLOCK))"
  then have "prefix EU_BLOCK_MARKER (drop j out)" by (simp only: out_def)
  then obtain v where v: "drop j out = EU_BLOCK_MARKER @ v" by (auto simp: prefix_def)
  have lenv: "length out - j = 26 + length v"
    using arg_cong[OF v, of length] by (simp add: marker_length)
  have nth: "out ! (j + i) = EU_BLOCK_MARKER ! i" if "i < 26" for i
  proof -
    have "j + i < length out" using that lenv by simp
    then have "out ! (j + i) = drop j out ! i" by simp
    also have "\<dots> = EU_BLOCK_MARKER ! i" using that by (simp add: v nth_append marker_length)
    finally show ?thesis .
  qed
  show False
  proof (cases "j + 26 \<le> length p")
    case True
    then have "drop j out = drop j p @ [nl, nl] @ EU_FUNDING_BLOCK" by (simp add: out_def)
    with v have "drop j p @ [nl, nl] @ EU_FUNDING_BLOCK = EU_BLOCK_MARKER @ v" by simp
    moreover have "length EU_BLOCK_MARKER \<le> length (drop j p)" using True by (simp add: marker_length)
    ultimately have "prefix EU_BLOCK_MARKER (drop j p)"
      by (metis prefix_def append_eq_append_conv_if append_take_drop_id)
    with nomark show False by blast
  next
    case False
    define i where "i = (if j \<le> length p then length p - j else 0)"
    have i26: "i < 26" using False by (auto simp: i_def)
    have "out ! (j + i) = nl"
    proof (cases "j \<le> length p")
      case True
      then have "j + i = length p" by (simp add: i_def)
      with at_p show ?thesis by simp
    next
      case False
      with j have "j = length p + 1" by simp
      then have "j + i = length p + 1" using False by (simp add: i_def)
      with at_p1 show ?thesis by simp
    qed
    with nth[OF i26] have "EU_BLOCK_MARKER ! i = nl" by simp
    moreover have "EU_BLOCK_MARKER ! i \<in> set EU_BLOCK_MARKER"
      using i26 by (simp add: marker_length)
    ultimately show False using nl_not_in_marker by simp
  qed
qed

text \<open>
  Claim C3. For every body \<open>b\<close>, with \<open>s\<close> the body without its trailing whitespace:
  \<open>ensure_eu_block_at_end b\<close> is the text of \<open>s\<close> before the leftmost place \<open>k\<close> at which a
  footer variant matches up to the end of \<open>s\<close> (all of \<open>s\<close> when there is none), without
  trailing whitespace, then exactly two newlines, then the canonical footer block. The
  footer marker occurs in it exactly once, and so does the block, whatever footer variants
  the body ended with. A body without \<open><\<close> holds no footer variant and is kept whole.
\<close>

theorem footer_exactly_once:
  "\<exists>k\<le>length (rstrip b).
       ensure_eu_block_at_end b = rstrip (take k (rstrip b)) @ [nl, nl] @ EU_FUNDING_BLOCK
     \<and> (\<forall>j<k. ends EU_BLOCK_REMOVE_RE (rstrip b) j = [])
     \<and> (k < length (rstrip b) \<longrightarrow> length (rstrip b) \<in> set (ends EU_BLOCK_REMOVE_RE (rstrip b) k))
     \<and> (CHR ''<'' \<notin> set b \<longrightarrow> k = length (rstrip b))
     \<and> occurrences EU_BLOCK_MARKER (ensure_eu_block_at_end b) = 1
     \<and> occurrences EU_FUNDING_BLOCK (ensure_eu_block_at_end b) = 1"
proof -
  define s where "s = rstrip b"
  define t where "t = re_sub EU_BLOCK_REMOVE_RE [] s"
  define p where "p = rstrip t"
  let ?out = "p @ [nl, nl] @ EU_FUNDING_BLOCK"
  have out: "ensure_eu_block_at_end b = ?out" by (simp add: ensure_shape p_def t_def s_def)
  from re_sub_EU_cut[of s] obtain k where k: "k \<le> length s" and tk: "t = take k s"
    and before: "\<forall>j<k. ends EU_BLOCK_REMOVE_RE s j = []"
    and atk: "k < length s \<longrightarrow> length s \<in> set (ends EU_BLOCK_REMOVE_RE s k)"
    unfolding t_def by blast
  have nolt: "k = length s" if "CHR ''<'' \<notin> set b"
  proof (rule ccontr)
    assume "k \<noteq> length s"
    with k atk have "ends EU_BLOCK_REMOVE_RE s k \<noteq> []" by auto
    from EU_match_needs_lt[OF this k] have "CHR ''<'' \<in> set s" .
    with set_rstrip[of b] that show False by (auto simp: s_def)
  qed
  have pt: "prefix p t" unfolding p_def by (rule rstrip_prefix)
  have nomark: "\<not> prefix EU_BLOCK_MARKER (drop j p)" for j
  proof
    assume a: "prefix EU_BLOCK_MARKER (drop j p)"
    from pt obtain z where z: "t = p @ z" by (auto simp: prefix_def)
    from a have "drop j p \<noteq> []" by (auto simp: EU_BLOCK_MARKER_def)
    then have "j \<le> length p" by simp
    then have "drop j t = drop j p @ z" by (simp add: z)
    with a have "prefix EU_BLOCK_MARKER (drop j t)" by (simp add: prefix_prefix)
    then show False unfolding t_def by (rule kept_no_marker)
  qed
  have "\<forall>j<length p + 2. \<not> prefix EU_BLOCK_MARKER (drop j ?out)"
    using no_marker_before_block[OF nomark] by blast
  moreover have "length p + 2 \<le> length ?out" by simp
  ultimately have "occurrences EU_BLOCK_MARKER ?out
      = occurrences EU_BLOCK_MARKER (drop (length p + 2) ?out)"
    by (rule occurrences_skip[rotated])
  moreover have "drop (length p + 2) ?out = EU_FUNDING_BLOCK" by simp
  ultimately have one: "occurrences EU_BLOCK_MARKER ?out = 1" by (simp only: blk_marker_once)
  obtain tl where tl: "EU_FUNDING_BLOCK = EU_BLOCK_MARKER @ tl"
    using blk_marker_prefix by (auto simp: prefix_def)
  have "occurrences EU_FUNDING_BLOCK ?out \<le> occurrences EU_BLOCK_MARKER ?out"
    unfolding tl by (rule occurrences_mono)
  moreover have "EU_FUNDING_BLOCK \<noteq> []" using tl by (auto simp: EU_BLOCK_MARKER_def)
  then have "1 \<le> occurrences EU_FUNDING_BLOCK ((p @ [nl, nl]) @ EU_FUNDING_BLOCK)"
    by (rule occurrences_suffix)
  ultimately have blk: "occurrences EU_FUNDING_BLOCK ?out = 1" using one by simp
  have e1: "ensure_eu_block_at_end b = rstrip (take k s) @ [nl, nl] @ EU_FUNDING_BLOCK"
    using out by (simp add: p_def tk)
  have one': "occurrences EU_BLOCK_MARKER (ensure_eu_block_at_end b) = 1"
    and blk': "occurrences EU_FUNDING_BLOCK (ensure_eu_block_at_end b) = 1"
    using one blk by (simp_all only: out)
  from nolt have nolt': "CHR ''<'' \<notin> set b \<longrightarrow> k = length s" by blast
  from k e1 before atk nolt' one' blk'
  have "k \<le> length s
     \<and> ensure_eu_block_at_end b = rstrip (take k s) @ [nl, nl] @ EU_FUNDING_BLOCK
     \<and> (\<forall>j<k. ends EU_BLOCK_REMOVE_RE s j = [])
     \<and> (k < length s \<longrightarrow> length s \<in> set (ends EU_BLOCK_REMOVE_RE s k))
     \<and> (CHR ''<'' \<notin> set b \<longrightarrow> k = length s)
     \<and> occurrences EU_BLOCK_MARKER (ensure_eu_block_at_end b) = 1
     \<and> occurrences EU_FUNDING_BLOCK (ensure_eu_block_at_end b) = 1"
    by (intro conjI)
  then show ?thesis unfolding s_def by (rule exI[of _ k])
qed

theorem footer_exactly_once_witness:
  "ensure_eu_block_at_end ''# Page\<newline>\<newline>---\<newline><!-- EU_FUNDING_FOOTER -->\<newline>old footer\<newline>''
     = ''# Page'' @ [nl, nl] @ EU_FUNDING_BLOCK
   \<and> occurrences EU_BLOCK_MARKER
       (ensure_eu_block_at_end ''# Page\<newline>\<newline>---\<newline><!-- EU_FUNDING_FOOTER -->\<newline>old footer\<newline>'') = 1
   \<and> occurrences EU_FUNDING_BLOCK
       (ensure_eu_block_at_end ''# Page\<newline>\<newline>---\<newline><!-- EU_FUNDING_FOOTER -->\<newline>old footer\<newline>'') = 1
   \<and> ensure_eu_block_at_end ''Hello - world  \<newline>'' = ''Hello - world'' @ [nl, nl] @ EU_FUNDING_BLOCK"
proof -
  let ?b = "''# Page\<newline>\<newline>---\<newline><!-- EU_FUNDING_FOOTER -->\<newline>old footer\<newline>''"
  let ?h = "''Hello - world  \<newline>''"
  have eb: "ensure_eu_block_at_end ?b = ''# Page'' @ [nl, nl] @ EU_FUNDING_BLOCK"
    by code_simp
  from footer_exactly_once[of ?b]
  have ob: "occurrences EU_BLOCK_MARKER (ensure_eu_block_at_end ?b) = 1"
    and ok: "occurrences EU_FUNDING_BLOCK (ensure_eu_block_at_end ?b) = 1"
    by blast+
  have rh: "rstrip ?h = ''Hello - world''" by code_simp
  have nolt: "CHR ''<'' \<notin> set ?h" by simp
  from footer_exactly_once[of ?h] obtain k where
    e: "ensure_eu_block_at_end ?h = rstrip (take k (rstrip ?h)) @ [nl, nl] @ EU_FUNDING_BLOCK"
    and kk: "CHR ''<'' \<notin> set ?h \<longrightarrow> k = length (rstrip ?h)"
    by blast
  from kk nolt have "take k (rstrip ?h) = rstrip ?h" by simp
  with e have "ensure_eu_block_at_end ?h = rstrip (rstrip ?h) @ [nl, nl] @ EU_FUNDING_BLOCK"
    by (simp only:)
  then have "ensure_eu_block_at_end ?h = rstrip ?h @ [nl, nl] @ EU_FUNDING_BLOCK"
    by (simp only: rstrip_idem)
  then have eh: "ensure_eu_block_at_end ?h = ''Hello - world'' @ [nl, nl] @ EU_FUNDING_BLOCK"
    by (simp only: rh)
  from eb ob ok eh show ?thesis by (intro conjI)
qed

section \<open>Value Normalizer\<close>

text \<open>
  A spreadsheet cell as the program sees it (\<open>Any\<close>): \<open>None\<close>, the not-a-number float,
  a \<open>bool\<close>, an \<open>int\<close> or a \<open>str\<close>.
\<close>

datatype pyval = VNone | VNaN | VBool bool | VInt int | VStr string

function str_nat :: "nat \<Rightarrow> string" where
  "str_nat n = (if n < 10 then [''0123456789'' ! n] else str_nat (n div 10) @ [''0123456789'' ! (n mod 10)])"
  by pat_completeness auto
termination
  by (relation "measure id") auto

definition py_str :: "pyval \<Rightarrow> string" where
  "py_str v = (case v of
       VNone \<Rightarrow> ''None''
     | VNaN \<Rightarrow> ''nan''
     | VBool b \<Rightarrow> (if b then ''True'' else ''False'')
     | VInt i \<Rightarrow> (if i < 0 then CHR ''-'' # str_nat (nat (- i)) else str_nat (nat i))
     | VStr s \<Rightarrow> s)"

definition is_missing :: "pyval \<Rightarrow> bool" where
  "is_missing v = (case v of
       VNone \<Rightarrow> True
     | VNaN \<Rightarrow> True
     | _ \<Rightarrow> (let s = strip (py_str v) in s = [] \<or> py_lower s = ''nan''))"

definition clean_str :: "pyval \<Rightarrow> string \<Rightarrow> string" where
  "clean_str v dflt = (if is_missing v then dflt else strip (py_str v))"

definition as_bool :: "pyval \<Rightarrow> bool" where
  "as_bool v = (case v of
       VBool b \<Rightarrow> b
     | _ \<Rightarrow> if is_missing v then False
            else py_lower (strip (py_str v)) \<in> set [''true'', ''1'', ''yes'', ''y'', ''on''])"

subsection \<open>\<open>float\<close> of a string, and \<open>int\<close> of a float\<close>

text \<open>
  A float is not-a-number, an infinity, or a finite binary64 value, kept as sign, integer
  mantissa and binary exponent: \<open>Finite neg m x\<close> is \<open>m * 2 ^ x\<close>, negated when \<open>neg\<close>.
\<close>

datatype pyfloat = Finite bool nat int | Infinite bool | NotANumber

definition digit_val :: "char \<Rightarrow> nat option" where
  "digit_val c = map_of (zip ''0123456789'' [0, 1, 2, 3, 4, 5, 6, 7, 8, 9]) c"

text \<open>
  \<open>digitpart ::= digit (["_"] digit)*\<close>. The digits are read into a number and counted.
\<close>

fun digitpart_from :: "nat \<Rightarrow> nat \<Rightarrow> string \<Rightarrow> (nat \<times> nat) option" where
  "digitpart_from acc n [] = Some (acc, n)"
| "digitpart_from acc n [c] =
     (case digit_val c of None \<Rightarrow> None | Some d \<Rightarrow> Some (10 * acc + d, Suc n))"
| "digitpart_from acc n (c # c' # cs) =
     (case digit_val c of
        None \<Rightarrow> None
      | Some d \<Rightarrow>
          if c' = CHR ''_'' then
            (if cs = [] then None else digitpart_from (10 * acc + d) (Suc n) cs)
          else digitpart_from (10 * acc + d) (Suc n) (c' # cs))"

definition digitpart :: "string \<Rightarrow> (nat \<times> nat) option" where
  "digitpart s = (if s = [] then None else digitpart_from 0 0 s)"

definition opt_digitpart :: "string \<Rightarrow> (nat \<times> nat) option" where
  "opt_digitpart s = (if s = [] then Some (0, 0) else digitpart s)"

definition split_sign :: "string \<Rightarrow> bool \<times> string" where
  "split_sign s = (case s of
       [] \<Rightarrow> (False, s)
     | c # r \<Rightarrow> if c = CHR ''-'' then (True, r) else if c = CHR ''+'' then (False, r) else (False, s))"

text \<open>
  \<open>number ::= [digitpart] "." digitpart | digitpart ["."]\<close>, read as mantissa and decimal
  exponent: the value is \<open>m * 10 ^ e\<close>.
\<close>

definition parse_number :: "string \<Rightarrow> (nat \<times> int) option" where
  "parse_number s =
     (let ip = takeWhile (\<lambda>c. c \<noteq> CHR ''.'') s; rest = dropWhile (\<lambda>c. c \<noteq> CHR ''.'') s in
      if rest = [] then map_option (\<lambda>(v, n). (v, 0)) (digitpart ip)
      else let fp = tl rest in
        if ip = [] \<and> fp = [] then None
        else (case (opt_digitpart ip, opt_digitpart fp) of
                (Some (iv, _), Some (fv, fn)) \<Rightarrow> Some (iv * 10 ^ fn + fv, - int fn)
              | _ \<Rightarrow> None))"

text \<open>\<open>exponent ::= ("e" | "E") [sign] digitpart\<close>; here the part after the letter.\<close>

definition parse_exponent :: "string \<Rightarrow> int option" where
  "parse_exponent s = (let (neg, r) = split_sign s in
     map_option (\<lambda>(v, n). if neg then - int v else int v) (digitpart r))"

definition is_e :: "char \<Rightarrow> bool" where
  "is_e c = (c = CHR ''e'' \<or> c = CHR ''E'')"

definition parse_floatnumber :: "string \<Rightarrow> (nat \<times> int) option" where
  "parse_floatnumber s =
     (let m = takeWhile (\<lambda>c. \<not> is_e c) s; rest = dropWhile (\<lambda>c. \<not> is_e c) s in
      case parse_number m of
        None \<Rightarrow> None
      | Some (v, e) \<Rightarrow>
          if rest = [] then Some (v, e)
          else map_option (\<lambda>x. (v, e + x)) (parse_exponent (tl rest)))"

function bit_length :: "nat \<Rightarrow> nat" where
  "bit_length n = (if n = 0 then 0 else Suc (bit_length (n div 2)))"
  by pat_completeness auto
termination
  by (relation "measure id") auto

text \<open>
  The binary64 value nearest to \<open>num / den\<close> (both positive), ties to even: the binary
  exponent \<open>e\<close> with \<open>2 ^ e \<le> num / den < 2 ^ (e + 1)\<close>, not below the subnormal range, and
  the quotient rounded at 53 bits. Past the largest finite value it is an infinity.
\<close>

definition ge_pow2 :: "nat \<Rightarrow> nat \<Rightarrow> int \<Rightarrow> bool" where
  "ge_pow2 num den k = (if 0 \<le> k then den * 2 ^ nat k \<le> num else den \<le> num * 2 ^ nat (- k))"

definition to_double :: "bool \<Rightarrow> nat \<Rightarrow> nat \<Rightarrow> pyfloat" where
  "to_double neg num den =
     (let e0 = int (bit_length num) - int (bit_length den);
          e = max (if ge_pow2 num den e0 then e0 else e0 - 1) (- 1022);
          sh = 52 - e;
          N = (if 0 \<le> sh then num * 2 ^ nat sh else num);
          D = (if 0 \<le> sh then den else den * 2 ^ nat (- sh));
          q = N div D;
          r = N mod D;
          m = (if 2 * r < D then q else if D < 2 * r then q + 1 else if even q then q else q + 1)
      in if 1024 \<le> e \<or> (e = 1023 \<and> 2 ^ 53 \<le> m) then Infinite neg else Finite neg m (e - 52))"

definition py_float :: "string \<Rightarrow> pyfloat option" where
  "py_float s =
     (let (neg, r) = split_sign s; l = py_lower r in
      if l = ''inf'' \<or> l = ''infinity'' then Some (Infinite neg)
      else if l = ''nan'' then Some NotANumber
      else (case parse_floatnumber r of
              None \<Rightarrow> None
            | Some (v, e) \<Rightarrow>
                if v = 0 then Some (Finite neg 0 0)
                else if 0 \<le> e then Some (to_double neg (v * 10 ^ nat e) 1)
                else Some (to_double neg v (10 ^ nat (- e)))))"

text \<open>\<open>int(f)\<close> truncates towards zero; it raises on an infinity and on not-a-number.\<close>

definition py_int_of_float :: "pyfloat \<Rightarrow> int option" where
  "py_int_of_float f = (case f of
       Finite neg m x \<Rightarrow>
         (let mag = (if 0 \<le> x then m * 2 ^ nat x else m div 2 ^ nat (- x))
          in Some (if neg then - int mag else int mag))
     | _ \<Rightarrow> None)"

definition as_int :: "pyval \<Rightarrow> int \<Rightarrow> int" where
  "as_int v dflt =
     (if is_missing v then dflt
      else (case py_float (strip (py_str v)) of
              None \<Rightarrow> dflt
            | Some f \<Rightarrow> (case py_int_of_float f of None \<Rightarrow> dflt | Some n \<Rightarrow> n)))"

section \<open>Frontmatter Builder\<close>

definition normalize_nav_title :: "string option \<Rightarrow> string option" where
  "normalize_nav_title title = (case title of
       None \<Rightarrow> None
     | Some t \<Rightarrow> if t = [] then Some t
                 else (let t' = strip t in if t' = ''00 Welcome'' then Some ''Welcome'' else Some t'))"

text \<open>The truth value of an \<open>Optional[str]\<close>: neither \<open>None\<close> nor empty.\<close>

definition truthy :: "string option \<Rightarrow> bool" where
  "truthy t = (case t of None \<Rightarrow> False | Some s \<Rightarrow> s \<noteq> [])"

definition dict_get :: "(string \<rightharpoonup> string) \<Rightarrow> string \<Rightarrow> string \<Rightarrow> string" where
  "dict_get d k dflt = (case d k of None \<Rightarrow> dflt | Some v \<Rightarrow> v)"

text \<open>
  The front matter is a \<open>dict\<close> in insertion order; every key is inserted at most once, so
  it is a list of pairs. \<open>FNull\<close> is the value \<open>None\<close>, which the builder never writes.
\<close>

datatype fmval = FNull | FStr string | FInt int | FBool bool

definition build_frontmatter ::
  "string \<Rightarrow> string \<Rightarrow> int \<Rightarrow> bool \<Rightarrow> string \<Rightarrow> (string \<rightharpoonup> string) \<Rightarrow> (string \<rightharpoonup> string)
     \<Rightarrow> (string \<times> fmval) list" where
  "build_frontmatter title layout nav_order has_children parent_id title_by_page_id parent_by_page_id =
     (let fm = [(''title'', FStr title), (''layout'', FStr layout), (''nav_order'', FInt nav_order),
                (''has_children'', FBool has_children)];
          fm = (if has_children then fm @ [(''has_toc'', FBool False)] else fm)
      in if parent_id \<noteq> [] then
           (let parent_title = normalize_nav_title (Some (dict_get title_by_page_id parent_id [])) in
            if truthy parent_title then
              (let fm = fm @ [(''parent'', FStr (the parent_title))];
                   gp_id = clean_str (VStr (dict_get parent_by_page_id parent_id [])) []
               in if gp_id \<noteq> [] then
                    (let gp_title = normalize_nav_title (Some (dict_get title_by_page_id gp_id [])) in
                     if truthy gp_title then fm @ [(''grand_parent'', FStr (the gp_title))] else fm)
                  else fm)
            else fm)
         else fm)"

definition build_body :: "string \<Rightarrow> string \<Rightarrow> string \<Rightarrow> string \<Rightarrow> string" where
  "build_body page_id parent_id lang_code title =
     (let meta = ''<!-- page_id: '' @ page_id @ '' -->'' @ [nl]
               @ ''<!-- parent_id: '' @ parent_id @ '' -->'' @ [nl]
               @ ''<!-- lang_code: '' @ lang_code @ '' -->'' @ [nl, nl]
      in meta @ ''# '' @ title @ [nl, nl])"

text \<open>
  \<open>yaml.safe_dump\<close> belongs to a library that is not part of the program: it is the
  parameter \<open>dump\<close>.
\<close>

definition safe_frontmatter_dump :: "((string \<times> fmval) list \<Rightarrow> string) \<Rightarrow> (string \<times> fmval) list \<Rightarrow> string" where
  "safe_frontmatter_dump dump frontmatter = ''---'' @ [nl] @ dump frontmatter @ ''---'' @ [nl, nl]"

section \<open>File Upsert Engine\<close>

text \<open>
  The files are a map from paths to their text, as \<open>read_text\<close> returns it and
  \<open>write_text\<close> takes it; \<open>path.exists()\<close> is membership in its domain.
\<close>

type_synonym path = string

type_synonym files = "path \<rightharpoonup> string"

definition upsert_markdown_file :: "files \<Rightarrow> path \<Rightarrow> string \<Rightarrow> string \<Rightarrow> files \<times> bool" where
  "upsert_markdown_file fs path new_frontmatter_block new_body_stub =
     (case fs path of
        Some old \<Rightarrow>
          (let rest = snd (split_frontmatter old);
               rest = ensure_eu_block_at_end rest
           in (fs(path \<mapsto> new_frontmatter_block @ rest), True))
      | None \<Rightarrow>
          (let body = ensure_eu_block_at_end new_body_stub
           in (fs(path \<mapsto> new_frontmatter_block @ body), True)))"

section \<open>Page Generation Driver\<close>

definition WELCOME_PAGE_ID :: string where
  "WELCOME_PAGE_ID = ''00000000_en''"

text \<open>
  The sheet is read with \<open>dtype=str\<close> and \<open>fillna("")\<close>: a row maps the columns of the
  sheet to strings. \<open>row.get(col, d)\<close> is the cell, or \<open>d\<close> when the sheet has no such column.
\<close>

type_synonym row = "string \<rightharpoonup> string"

record sheet =
  columns :: "string list"
  rows :: "row list"

definition row_get :: "row \<Rightarrow> string \<Rightarrow> pyval \<Rightarrow> pyval" where
  "row_get r col dflt = (case r col of None \<Rightarrow> dflt | Some s \<Rightarrow> VStr s)"

text \<open>\<open>df[col].astype(str).str.strip()\<close> on one row.\<close>

definition strip_column :: "string \<Rightarrow> row \<Rightarrow> row" where
  "strip_column col r = (case r col of None \<Rightarrow> r | Some s \<Rightarrow> r(col \<mapsto> strip s))"

text \<open>\<open>dict(zip(keys, values))\<close>: a later row replaces an earlier one with the same key.\<close>

definition dict_zip :: "string list \<Rightarrow> string list \<Rightarrow> (string \<rightharpoonup> string)" where
  "dict_zip ks vs = map_of (rev (zip ks vs))"

record run_state =
  files_of :: files
  wrote :: nat
  skipped :: nat

definition row_nav_order :: "row \<Rightarrow> int" where
  "row_nav_order r =
     (let nav_order = as_int (row_get r ''display_order'' (VInt 0)) 0
      in if nav_order \<le> 0 then 1 else nav_order)"

definition row_page_id :: "row \<Rightarrow> string" where
  "row_page_id r = clean_str (row_get r ''page_id'' VNone) []"

definition row_parent_id :: "bool \<Rightarrow> row \<Rightarrow> string" where
  "row_parent_id has_parent_col r =
     (if has_parent_col then clean_str (row_get r ''parent_id'' VNone) [] else [])"

definition row_title :: "row \<Rightarrow> string" where
  "row_title r = clean_str (row_get r ''title'' VNone) (row_page_id r)"

definition row_frontmatter ::
  "bool \<Rightarrow> (string \<rightharpoonup> string) \<Rightarrow> (string \<rightharpoonup> string) \<Rightarrow> row \<Rightarrow> (string \<times> fmval) list" where
  "row_frontmatter has_parent_col title_by_page_id parent_by_page_id r =
     build_frontmatter (row_title r) (clean_str (row_get r ''layout'' VNone) ''home'')
       (row_nav_order r) (as_bool (row_get r ''has_children'' (VBool False)))
       (row_parent_id has_parent_col r) title_by_page_id parent_by_page_id"

definition out_path :: "path \<Rightarrow> string \<Rightarrow> path" where
  "out_path out_dir page_id = out_dir @ ''/'' @ page_id @ ''.md''"

text \<open>The body of the loop over the rows.\<close>

definition process_row ::
  "((string \<times> fmval) list \<Rightarrow> string) \<Rightarrow> path \<Rightarrow> bool \<Rightarrow> (string \<rightharpoonup> string) \<Rightarrow> (string \<rightharpoonup> string)
     \<Rightarrow> run_state \<Rightarrow> row \<Rightarrow> run_state" where
  "process_row dump out_dir has_parent_col title_by_page_id parent_by_page_id st r =
     (let page_id = row_page_id r in
      if page_id = [] then st
      else if page_id = WELCOME_PAGE_ID then st\<lparr>skipped := skipped st + 1\<rparr>
      else
        (let lang_code = clean_str (row_get r ''lang_code'' VNone) ''en'';
             parent_id = row_parent_id has_parent_col r;
             frontmatter = row_frontmatter has_parent_col title_by_page_id parent_by_page_id r;
             front = safe_frontmatter_dump dump frontmatter;
             stub_body = build_body page_id parent_id lang_code (row_title r);
             (fs, ok) = upsert_markdown_file (files_of st) (out_path out_dir page_id) front stub_body
         in st\<lparr>files_of := fs, wrote := wrote st + 1\<rparr>))"

datatype error = FileNotFoundError | KeyError "string list"

text \<open>
  \<open>main\<close>: \<open>excel\<close> is the sheet of the input file, \<open>None\<close> when the file does not exist.
\<close>

definition main ::
  "((string \<times> fmval) list \<Rightarrow> string) \<Rightarrow> path \<Rightarrow> sheet option \<Rightarrow> files \<Rightarrow> error + run_state" where
  "main dump out_dir excel fs =
     (case excel of
        None \<Rightarrow> Inl FileNotFoundError
      | Some df \<Rightarrow>
          (let missing_cols = filter (\<lambda>c. c \<notin> set (columns df)) [''page_id'', ''title''] in
           if missing_cols \<noteq> [] then Inl (KeyError missing_cols)
           else
             (let rs = map (strip_column ''title'' \<circ> strip_column ''page_id'') (rows df);
                  ids = map (\<lambda>r. dict_get r ''page_id'' []) rs;
                  title_by_page_id = dict_zip ids (map (\<lambda>r. dict_get r ''title'' []) rs);
                  has_parent_col = (''parent_id'' \<in> set (columns df));
                  parent_by_page_id =
                    (if has_parent_col
                     then dict_zip ids (map (\<lambda>r. strip (dict_get r ''parent_id'' [])) rs)
                     else Map.empty)
              in Inr (foldl (process_row dump out_dir has_parent_col title_by_page_id parent_by_page_id)
                        \<lparr>files_of = fs, wrote = 0, skipped = 0\<rparr> rs))))"

section \<open>Splitting off the front matter\<close>

text \<open>\<open>seg s i j\<close> is the slice \<open>s[i:j]\<close>.\<close>

definition seg :: "string \<Rightarrow> nat \<Rightarrow> nat \<Rightarrow> string" where
  "seg s i j = take (j - i) (drop i s)"

lemma seg_split: "i \<le> j \<Longrightarrow> j \<le> k \<Longrightarrow> seg s i k = seg s i j @ seg s j k"
proof -
  assume ij: "i \<le> j" and jk: "j \<le> k"
  then have "k - i = (j - i) + (k - j)" by simp
  then have "take (k - i) (drop i s) = take (j - i) (drop i s) @ take (k - j) (drop (j - i) (drop i s))"
    by (simp only: take_add)
  moreover have "drop (j - i) (drop i s) = drop j s" using ij by simp
  ultimately show ?thesis by (simp add: seg_def)
qed

lemma take_seg: "take e s = seg s 0 e"
  by (simp add: seg_def)

lemma lit_Nil: "lit [] = Eps" by (simp add: lit_def seqs_def)
lemma lit_Cons: "lit (c # w) = Seq (Chr (Lit c)) (lit w)" by (simp add: lit_def seqs_def)

lemma in_ends_lit: "e \<in> set (ends (lit w) s i) \<Longrightarrow> e = i + length w \<and> seg s i e = w"
proof (induction w arbitrary: i)
  case Nil
  then show ?case by (simp add: lit_Nil seg_def)
next
  case (Cons c w)
  from Cons.prems have i: "i < length s" and c: "s ! i = c" and e: "e \<in> set (ends (lit w) s (Suc i))"
    by (auto simp: lit_Cons split: if_splits)
  from Cons.IH[OF e] have e': "e = Suc i + length w" and w: "seg s (Suc i) e = w" by blast+
  have "seg s i e = seg s i (Suc i) @ seg s (Suc i) e" using e' by (intro seg_split) simp_all
  moreover have "seg s i (Suc i) = [c]" using i c by (simp add: seg_def take_Suc_conv_app_nth hd_drop_conv_nth take_Suc)
  ultimately show ?case using e' w by simp
qed

lemma in_ends_Chr_Lit: "e \<in> set (ends (Chr (Lit c)) s i) \<Longrightarrow> e = Suc i \<and> seg s i e = [c]"
  by (auto simp: seg_def take_Suc hd_drop_conv_nth split: if_splits)

lemma in_ends_Star_all:
  assumes "e \<in> set (ends (Star c) s i)"
  shows "i \<le> e \<and> list_all (cmatch c) (seg s i e)"
proof -
  from assms have ie: "i \<le> e" and le: "e - i \<le> run c s i" by (auto simp: in_ends_Star)
  have "take (e - i) (takeWhile (cmatch c) (drop i s)) = take (e - i) (drop i s)"
    using le unfolding run_def
    by (metis takeWhile_dropWhile_id take_append diff_is_0_eq take0 append_Nil2)
  then have "seg s i e = take (e - i) (takeWhile (cmatch c) (drop i s))"
    by (simp add: seg_def)
  moreover have "list_all (cmatch c) (takeWhile (cmatch c) (drop i s))"
    by (simp add: list_all_iff) (metis set_takeWhileD)
  ultimately show ?thesis using ie by (auto simp: list_all_iff dest: in_set_takeD)
qed

lemma frontmatter_match_shape:
  assumes "e \<in> set (ends FRONTMATTER_RE t 0)"
  shows "\<exists>ws1 mid ws2. take e t = ''---'' @ ws1 @ [nl] @ mid @ [nl] @ ''---'' @ ws2 @ [nl]
           \<and> list_all is_space ws1 \<and> list_all is_space ws2"
proof -
  from assms obtain p0 p1 p2 p3 p4 p5 p6 p7 where
      p0: "p0 \<in> set (ends BeginA t 0)"
    and p1': "p1 \<in> set (ends (lit ''---'') t p0)"
    and p2: "p2 \<in> set (ends (Star Space) t p1)"
    and p3: "p3 \<in> set (ends (Chr (Lit nl)) t p2)"
    and p4: "p4 \<in> set (ends (LazyStar AnyChar) t p3)"
    and p5: "p5 \<in> set (ends (Chr (Lit nl)) t p4)"
    and p6: "p6 \<in> set (ends (lit ''---'') t p5)"
    and p7: "p7 \<in> set (ends (Star Space) t p6)"
    and e: "e \<in> set (ends (Chr (Lit nl)) t p7)"
    unfolding FRONTMATTER_RE_def seqs_Cons seqs_Nil in_ends_Seq ends.simps(1)
    by (auto simp only: set_simps singleton_iff)
  from p0 have "p0 = 0" by simp
  with p1' have p1: "p1 \<in> set (ends (lit ''---'') t 0)" by simp
  note a1 = in_ends_lit[OF p1] and a2 = in_ends_Star_all[OF p2] and a3 = in_ends_Chr_Lit[OF p3]
    and a5 = in_ends_Chr_Lit[OF p5] and a6 = in_ends_lit[OF p6] and a7 = in_ends_Star_all[OF p7]
    and a8 = in_ends_Chr_Lit[OF e]
  from ends_bounds[OF p4] have a4: "p3 \<le> p4" by simp
  have "take e t = seg t 0 p1 @ seg t p1 e" using a1 a2 a3 a4 a5 a6 a7 a8
    by (simp only: take_seg) (rule seg_split, simp_all)
  also have "seg t p1 e = seg t p1 p2 @ seg t p2 e" using a1 a2 a3 a4 a5 a6 a7 a8
    by (intro seg_split) simp_all
  also have "seg t p2 e = seg t p2 p3 @ seg t p3 e" using a1 a2 a3 a4 a5 a6 a7 a8
    by (intro seg_split) simp_all
  also have "seg t p3 e = seg t p3 p4 @ seg t p4 e" using a1 a2 a3 a4 a5 a6 a7 a8
    by (intro seg_split) simp_all
  also have "seg t p4 e = seg t p4 p5 @ seg t p5 e" using a1 a2 a3 a4 a5 a6 a7 a8
    by (intro seg_split) simp_all
  also have "seg t p5 e = seg t p5 p6 @ seg t p6 e" using a1 a2 a3 a4 a5 a6 a7 a8
    by (intro seg_split) simp_all
  also have "seg t p6 e = seg t p6 p7 @ seg t p7 e" using a1 a2 a3 a4 a5 a6 a7 a8
    by (intro seg_split) simp_all
  finally have chain: "take e t = seg t 0 p1 @ seg t p1 p2 @ seg t p2 p3 @ seg t p3 p4
      @ seg t p4 p5 @ seg t p5 p6 @ seg t p6 p7 @ seg t p7 e" .
  have s1: "seg t 0 p1 = ''---''" and s3: "seg t p2 p3 = [nl]" and s5: "seg t p4 p5 = [nl]"
    and s6: "seg t p5 p6 = ''---''" and s8: "seg t p7 e = [nl]"
    using a1 a3 a5 a6 a8 by blast+
  have "take e t = ''---'' @ seg t p1 p2 @ [nl] @ seg t p3 p4 @ [nl] @ ''---'' @ seg t p6 p7 @ [nl]"
    unfolding chain s1 s3 s5 s6 s8 by simp
  moreover have "list_all is_space (seg t p1 p2)" using a2 by (simp add: list_all_iff)
  moreover have "list_all is_space (seg t p6 p7)" using a7 by (simp add: list_all_iff)
  ultimately show ?thesis by blast
qed

lemma split_frontmatter_concat: "fst (split_frontmatter t) @ snd (split_frontmatter t) = t"
  by (cases "re_match FRONTMATTER_RE t") (simp_all add: split_frontmatter_def)

text \<open>
  Claim C10. \<open>split_frontmatter\<close> loses nothing: the two parts put together are the text.
  A non-empty first part is the start of the text and has the shape of a front-matter
  block: \<open>---\<close>, whitespace, a newline, any text, a newline, \<open>---\<close>, whitespace, a newline.
  A text that does not start with \<open>---\<close> is returned whole as the second part, with an
  empty first part, whatever \<open>---\<close> blocks it holds further down.
\<close>

theorem split_frontmatter_lossless:
  "fst (split_frontmatter t) @ snd (split_frontmatter t) = t
   \<and> (fst (split_frontmatter t) \<noteq> [] \<longrightarrow>
        (\<exists>ws1 mid ws2. fst (split_frontmatter t) = ''---'' @ ws1 @ [nl] @ mid @ [nl] @ ''---'' @ ws2 @ [nl]
           \<and> list_all is_space ws1 \<and> list_all is_space ws2))
   \<and> (\<not> prefix ''---'' t \<longrightarrow> split_frontmatter t = ([], t))"
proof (cases "re_match FRONTMATTER_RE t")
  case None
  then show ?thesis by (simp add: split_frontmatter_def)
next
  case (Some e)
  then have e: "e \<in> set (ends FRONTMATTER_RE t 0)"
    by (auto simp: re_match_def first_end_def find_Some_iff)
  from frontmatter_match_shape[OF e] obtain ws1 mid ws2 where
    sh: "take e t = ''---'' @ ws1 @ [nl] @ mid @ [nl] @ ''---'' @ ws2 @ [nl]"
    and ws: "list_all is_space ws1" "list_all is_space ws2" by blast
  have one: "fst (split_frontmatter t) @ snd (split_frontmatter t) = t"
    by (rule split_frontmatter_concat)
  have fm: "fst (split_frontmatter t) = take e t" using Some by (simp add: split_frontmatter_def)
  have "prefix (take e t) t" by (rule take_is_prefix)
  with sh have "prefix ''---'' t" by (auto simp: prefix_def)
  moreover have "\<exists>ws1 mid ws2. fst (split_frontmatter t) = ''---'' @ ws1 @ [nl] @ mid @ [nl] @ ''---'' @ ws2 @ [nl]
           \<and> list_all is_space ws1 \<and> list_all is_space ws2"
    unfolding fm using sh ws by blast
  ultimately show ?thesis using one by blast
qed

theorem split_frontmatter_lossless_witness:
  "split_frontmatter ''---\<newline>title: Old\<newline>---\<newline>\<newline># Page\<newline>''
     = (''---\<newline>title: Old\<newline>---\<newline>\<newline>'', ''# Page\<newline>'')
   \<and> (\<exists>ws1 mid ws2. ''---\<newline>title: Old\<newline>---\<newline>\<newline>''
          = ''---'' @ ws1 @ [nl] @ mid @ [nl] @ ''---'' @ ws2 @ [nl]
          \<and> list_all is_space ws1 \<and> list_all is_space ws2)
   \<and> split_frontmatter ''Intro\<newline>---\<newline>title: Old\<newline>---\<newline>''
     = ([], ''Intro\<newline>---\<newline>title: Old\<newline>---\<newline>'')"
proof -
  let ?t1 = "''---\<newline>title: Old\<newline>---\<newline>\<newline># Page\<newline>''"
  let ?t2 = "''Intro\<newline>---\<newline>title: Old\<newline>---\<newline>''"
  have e1: "split_frontmatter ?t1 = (''---\<newline>title: Old\<newline>---\<newline>\<newline>'', ''# Page\<newline>'')"
    by code_simp
  have n2: "\<not> prefix ''---'' ?t2" by simp
  from split_frontmatter_lossless[of ?t1] e1
  have "\<exists>ws1 mid ws2. ''---\<newline>title: Old\<newline>---\<newline>\<newline>''
          = ''---'' @ ws1 @ [nl] @ mid @ [nl] @ ''---'' @ ws2 @ [nl]
          \<and> list_all is_space ws1 \<and> list_all is_space ws2"
    by simp
  moreover from split_frontmatter_lossless[of ?t2] n2
  have "split_frontmatter ?t2 = ([], ?t2)" by blast
  ultimately show ?thesis using e1 by blast
qed

section \<open>What the upsert writes\<close>



end
